theory Spec2Isabelle
  imports Main "HOL-Library.Char_ord" "HOL-Library.List_Lexorder"
begin

section \<open>The graph\<close>

text \<open>
  The graph is a Python dict from a node to the list of its successors. A dict is finite,
  so it is an association list here, read through \<open>map_of\<close>.
  \<open>graph.get(n, [])\<close> is \<open>graph_get\<close>: a node that is no key has no successor.
  Node identifiers are compared by \<open>sorted\<close>, so they are of a linear order; the
  fixed graph has strings, ordered as Python orders them (lexicographically, by code point).
\<close>

type_synonym 'a graph = "('a \<times> 'a list) list"

definition graph_get :: "'a graph \<Rightarrow> 'a \<Rightarrow> 'a list" where
  "graph_get graph n = (case map_of graph n of None \<Rightarrow> [] | Some ns \<Rightarrow> ns)"

definition GRAPH :: "string graph" where
  "GRAPH =
    [(''A'', [''D'', ''B'']),
     (''B'', [''C'', ''E'', ''G'']),
     (''C'', [''A'']),
     (''D'', [''C'', ''A'']),
     (''E'', [''H'']),
     (''F'', []),
     (''G'', [''F'']),
     (''H'', [''G'', ''F''])]"

section \<open>The state of a search\<close>

text \<open>
  One record of \<open>process_steps\<close>. The field \<open>Expansion\<close> holds the string
  \<open>'Start'\<close> in the first record and the expanded node in the others; the field
  \<open>Frontier\<close> is \<open>'Frontier (Queue)'\<close> in the breadth-first search and
  \<open>'Frontier (Stack)'\<close> in the depth-first search.
\<close>

datatype 'a expansion = Start | Node 'a

record 'a trace_step =
  Step :: nat
  Expansion :: "'a expansion"
  Level :: nat
  Frontier :: "'a list"
  Visited :: "'a set"

text \<open>
  The local variables of a search. \<open>frontier\<close> is the deque \<open>queue\<close> of
  \<open>breadth_first_search\<close> (head first) and the list \<open>stack\<close> of
  \<open>depth_first_search\<close> (top last). \<open>parent_map\<close> maps the start node to
  \<open>None\<close>, which is the value \<open>Some None\<close> here; a node that is no key is
  \<open>None\<close>. \<open>current_node\<close> is \<open>None\<close> as long as the variable is unbound.
\<close>

record 'a search_state =
  frontier :: "'a list"
  visited :: "'a set"
  parent_map :: "'a \<rightharpoonup> 'a option"
  process_steps :: "'a trace_step list"
  level :: "'a \<rightharpoonup> nat"
  expansion_order :: nat
  current_node :: "'a option"

datatype py_error = KeyError | IndexError | UnboundLocalError

datatype 'a outcome = Raise py_error | Break 'a | Continue 'a

text \<open>Lines 24 to 40 and 89 to 104: the state before the loop, the same in both searches.\<close>

definition init_state :: "'a \<Rightarrow> 'a search_state" where
  "init_state start_node =
    \<lparr>frontier = [start_node],
     visited = {start_node},
     parent_map = [start_node \<mapsto> None],
     process_steps =
       [\<lparr>Step = 0, Expansion = Start, Level = 0, Frontier = [start_node],
         Visited = {start_node}\<rparr>],
     level = [start_node \<mapsto> 0],
     expansion_order = 0,
     current_node = None\<rparr>"

section \<open>The loops\<close>

text \<open>
  The \<open>for\<close> loop over the neighbours (lines 56 to 61 and 121 to 127), the same in both
  searches: \<open>append\<close> adds at the end of the deque and of the list.
  \<open>level[current_node]\<close> is read at each new neighbour and raises \<open>KeyError\<close>
  when the node is no key.
\<close>

fun discover :: "'a \<Rightarrow> 'a list \<Rightarrow> 'a search_state \<Rightarrow> py_error + 'a search_state" where
  "discover cur [] st = Inr st"
| "discover cur (neighbor # ns) st =
    (if neighbor \<notin> visited st then
       (case level st cur of
          None \<Rightarrow> Inl KeyError
        | Some l \<Rightarrow>
            discover cur ns
              (st\<lparr>visited := insert neighbor (visited st),
                  parent_map := (parent_map st)(neighbor \<mapsto> Some cur),
                  level := (level st)(neighbor \<mapsto> l + 1),
                  frontier := frontier st @ [neighbor]\<rparr>))
     else discover cur ns st)"

text \<open>One iteration of the \<open>while\<close> loop of \<open>breadth_first_search\<close> (lines 43 to 70).\<close>

definition bfs_step :: "('a::linorder) graph \<Rightarrow> 'a \<Rightarrow> 'a search_state \<Rightarrow> 'a search_state outcome" where
  "bfs_step graph goal_node st =
    (case frontier st of
       [] \<Rightarrow> Raise IndexError
     | cur # rest \<Rightarrow>
        (let st1 = st\<lparr>frontier := rest, current_node := Some cur,
                        expansion_order := expansion_order st + 1\<rparr>
         in if cur = goal_node then Break st1
            else
              (let neighbors = sort (graph_get graph cur);
                   new_frontier = frontier st1
               in case discover cur neighbors st1 of
                    Inl e \<Rightarrow> Raise e
                  | Inr st2 \<Rightarrow>
                      (case level st2 cur of
                         None \<Rightarrow> Raise KeyError
                       | Some l \<Rightarrow>
                           Continue (st2\<lparr>process_steps := process_steps st2 @
                             [\<lparr>Step = expansion_order st2, Expansion = Node cur, Level = l,
                               Frontier = new_frontier @ sort (frontier st2),
                               Visited = visited st2\<rparr>]\<rparr>)))))"

text \<open>
  One iteration of the \<open>while\<close> loop of \<open>depth_first_search\<close> (lines 107 to 137):
  \<open>pop\<close> takes the last element, \<open>sorted(..., reverse=True)\<close> is the sorted list
  reversed (equal identifiers are the same value), \<open>stack[::-1]\<close> is the stack reversed.
\<close>

definition dfs_step :: "('a::linorder) graph \<Rightarrow> 'a \<Rightarrow> 'a search_state \<Rightarrow> 'a search_state outcome" where
  "dfs_step graph goal_node st =
    (if frontier st = [] then Raise IndexError
     else
       (let cur = last (frontier st);
            st1 = st\<lparr>frontier := butlast (frontier st), current_node := Some cur,
                      expansion_order := expansion_order st + 1\<rparr>
        in if cur = goal_node then Break st1
           else
             (let neighbors = rev (sort (graph_get graph cur))
              in case discover cur neighbors st1 of
                   Inl e \<Rightarrow> Raise e
                 | Inr st2 \<Rightarrow>
                     (case level st2 cur of
                        None \<Rightarrow> Raise KeyError
                      | Some l \<Rightarrow>
                          Continue (st2\<lparr>process_steps := process_steps st2 @
                            [\<lparr>Step = expansion_order st2, Expansion = Node cur, Level = l,
                              Frontier = rev (frontier st2),
                              Visited = visited st2\<rparr>]\<rparr>)))))"

text \<open>
  The measure of both loops: the nodes that can still be discovered (the successors named
  in the graph that are not visited) and the nodes that wait in the frontier.
\<close>

definition graph_nodes :: "'a graph \<Rightarrow> 'a set" where
  "graph_nodes graph = (\<Union>(k, ns) \<in> set graph. set ns)"

definition loop_measure :: "'a graph \<Rightarrow> 'a search_state \<Rightarrow> nat" where
  "loop_measure graph st = card (graph_nodes graph - visited st) + length (frontier st)"

lemma graph_get_nodes: "set (graph_get graph n) \<subseteq> graph_nodes graph"
proof (cases "map_of graph n")
  case None
  then show ?thesis by (simp add: graph_get_def)
next
  case (Some ns)
  then have "(n, ns) \<in> set graph" by (rule map_of_SomeD)
  then have "set ns \<subseteq> graph_nodes graph"
    unfolding graph_nodes_def by force
  with Some show ?thesis by (simp add: graph_get_def)
qed

lemma finite_graph_nodes: "finite (graph_nodes graph)"
  unfolding graph_nodes_def by (rule finite_UN_I) auto

lemma discover_measure:
  "discover cur ns st = Inr st' \<Longrightarrow> set ns \<subseteq> graph_nodes graph \<Longrightarrow>
   loop_measure graph st' = loop_measure graph st"
proof (induction ns arbitrary: st)
  case Nil
  then show ?case by simp
next
  case (Cons n ns)
  show ?case
  proof (cases "n \<in> visited st")
    case True
    with Cons.prems have "discover cur ns st = Inr st'" by simp
    then show ?thesis using Cons.IH Cons.prems(2) by simp
  next
    case False
    with Cons.prems(1) obtain l where l: "level st cur = Some l"
      by (cases "level st cur") simp_all
    let ?st = "st\<lparr>visited := insert n (visited st),
      parent_map := (parent_map st)(n \<mapsto> Some cur),
      level := (level st)(n \<mapsto> l + 1), frontier := frontier st @ [n]\<rparr>"
    let ?A = "graph_nodes graph - visited st"
    from Cons.prems(1) False l have "discover cur ns ?st = Inr st'" by simp
    then have a: "loop_measure graph st' = loop_measure graph ?st"
      using Cons.IH Cons.prems(2) by simp
    have eq: "graph_nodes graph - insert n (visited st) = ?A - {n}"
      by auto
    have mem: "n \<in> ?A"
      using Cons.prems(2) False by simp
    have fin: "finite ?A"
      by (rule finite_Diff) (rule finite_graph_nodes)
    have "card (?A - {n}) = card ?A - 1"
      using mem by (rule card_Diff_singleton)
    moreover have "0 < card ?A"
      using fin mem by (auto simp: card_gt_0_iff)
    ultimately have "card (graph_nodes graph - insert n (visited st)) + 1 = card ?A"
      using eq by simp
    then have "loop_measure graph ?st = loop_measure graph st"
      by (simp add: loop_measure_def)
    with a show ?thesis by simp
  qed
qed

lemma bfs_step_Continue:
  assumes "bfs_step graph goal_node st = Continue st'"
  obtains cur rest st2 l where
    "frontier st = cur # rest" "cur \<noteq> goal_node"
    "discover cur (sort (graph_get graph cur))
       (st\<lparr>frontier := rest, current_node := Some cur,
           expansion_order := expansion_order st + 1\<rparr>) = Inr st2"
    "level st2 cur = Some l"
    "st' = st2\<lparr>process_steps := process_steps st2 @
       [\<lparr>Step = expansion_order st2, Expansion = Node cur, Level = l,
         Frontier = rest @ sort (frontier st2), Visited = visited st2\<rparr>]\<rparr>"
proof (cases "frontier st")
  case Nil
  with assms show ?thesis by (simp add: bfs_step_def)
next
  case (Cons cur rest)
  let ?st1 = "st\<lparr>frontier := rest, current_node := Some cur,
           expansion_order := expansion_order st + 1\<rparr>"
  from assms Cons have ne: "cur \<noteq> goal_node"
    by (auto simp: bfs_step_def Let_def)
  show ?thesis
  proof (cases "discover cur (sort (graph_get graph cur)) ?st1")
    case (Inl e)
    with assms Cons ne show ?thesis by (simp add: bfs_step_def Let_def)
  next
    case (Inr st2)
    show ?thesis
    proof (cases "level st2 cur")
      case None
      with assms Cons ne Inr show ?thesis by (simp add: bfs_step_def Let_def)
    next
      case (Some l)
      with assms Cons ne Inr have "st' = st2\<lparr>process_steps := process_steps st2 @
       [\<lparr>Step = expansion_order st2, Expansion = Node cur, Level = l,
         Frontier = rest @ sort (frontier st2), Visited = visited st2\<rparr>]\<rparr>"
        by (simp add: bfs_step_def Let_def)
      with Cons ne Inr Some show ?thesis by (rule that)
    qed
  qed
qed

lemma bfs_step_measure:
  assumes "bfs_step graph goal_node st = Continue st'"
  shows "loop_measure graph st' < loop_measure graph st"
proof -
  from assms obtain cur rest st2 l where f: "frontier st = cur # rest"
    and d: "discover cur (sort (graph_get graph cur))
       (st\<lparr>frontier := rest, current_node := Some cur,
           expansion_order := expansion_order st + 1\<rparr>) = Inr st2"
    and s: "st' = st2\<lparr>process_steps := process_steps st2 @
       [\<lparr>Step = expansion_order st2, Expansion = Node cur, Level = l,
         Frontier = rest @ sort (frontier st2), Visited = visited st2\<rparr>]\<rparr>"
    by (rule bfs_step_Continue)
  have "set (sort (graph_get graph cur)) \<subseteq> graph_nodes graph"
    using graph_get_nodes [of graph cur] by simp
  with d have "loop_measure graph st2 = loop_measure graph
       (st\<lparr>frontier := rest, current_node := Some cur,
           expansion_order := expansion_order st + 1\<rparr>)"
    by (rule discover_measure)
  with f s show ?thesis by (simp add: loop_measure_def)
qed


lemma dfs_step_Continue:
  assumes "dfs_step graph goal_node st = Continue st'"
  obtains st2 l where
    "frontier st \<noteq> []" "last (frontier st) \<noteq> goal_node"
    "discover (last (frontier st)) (rev (sort (graph_get graph (last (frontier st)))))
       (st\<lparr>frontier := butlast (frontier st), current_node := Some (last (frontier st)),
           expansion_order := expansion_order st + 1\<rparr>) = Inr st2"
    "level st2 (last (frontier st)) = Some l"
    "st' = st2\<lparr>process_steps := process_steps st2 @
       [\<lparr>Step = expansion_order st2, Expansion = Node (last (frontier st)), Level = l,
         Frontier = rev (frontier st2), Visited = visited st2\<rparr>]\<rparr>"
proof -
  let ?cur = "last (frontier st)"
  let ?st1 = "st\<lparr>frontier := butlast (frontier st), current_node := Some ?cur,
           expansion_order := expansion_order st + 1\<rparr>"
  from assms have f: "frontier st \<noteq> []"
    by (auto simp: dfs_step_def)
  from assms f have ne: "?cur \<noteq> goal_node"
    by (auto simp: dfs_step_def Let_def)
  show ?thesis
  proof (cases "discover ?cur (rev (sort (graph_get graph ?cur))) ?st1")
    case (Inl e)
    with assms f ne show ?thesis by (simp add: dfs_step_def Let_def)
  next
    case (Inr st2)
    show ?thesis
    proof (cases "level st2 ?cur")
      case None
      with assms f ne Inr show ?thesis by (simp add: dfs_step_def Let_def)
    next
      case (Some l)
      with assms f ne Inr have "st' = st2\<lparr>process_steps := process_steps st2 @
       [\<lparr>Step = expansion_order st2, Expansion = Node ?cur, Level = l,
         Frontier = rev (frontier st2), Visited = visited st2\<rparr>]\<rparr>"
        by (simp add: dfs_step_def Let_def)
      with f ne Inr Some show ?thesis by (rule that)
    qed
  qed
qed

lemma dfs_step_measure:
  assumes "dfs_step graph goal_node st = Continue st'"
  shows "loop_measure graph st' < loop_measure graph st"
proof -
  let ?cur = "last (frontier st)"
  let ?st1 = "st\<lparr>frontier := butlast (frontier st), current_node := Some ?cur,
           expansion_order := expansion_order st + 1\<rparr>"
  from assms obtain st2 l where f: "frontier st \<noteq> []"
    and d: "discover ?cur (rev (sort (graph_get graph ?cur))) ?st1 = Inr st2"
    and s: "st' = st2\<lparr>process_steps := process_steps st2 @
       [\<lparr>Step = expansion_order st2, Expansion = Node ?cur, Level = l,
         Frontier = rev (frontier st2), Visited = visited st2\<rparr>]\<rparr>"
    by (rule dfs_step_Continue)
  have "set (rev (sort (graph_get graph ?cur))) \<subseteq> graph_nodes graph"
    using graph_get_nodes [of graph ?cur] by simp
  with d have "loop_measure graph st2 = loop_measure graph ?st1"
    by (rule discover_measure)
  with f s show ?thesis by (simp add: loop_measure_def)
qed

text \<open>
  The \<open>while\<close> loops (lines 42 and 106). They end when the frontier is empty, at the
  \<open>break\<close>, or with the error an iteration raises.
\<close>

function bfs_loop :: "('a::linorder) graph \<Rightarrow> 'a \<Rightarrow> 'a search_state \<Rightarrow> py_error + 'a search_state" where
  "bfs_loop graph goal_node st =
    (if frontier st = [] then Inr st
     else
       (case bfs_step graph goal_node st of
          Raise e \<Rightarrow> Inl e
        | Break st' \<Rightarrow> Inr st'
        | Continue st' \<Rightarrow> bfs_loop graph goal_node st'))"
  by pat_completeness auto
termination
proof (relation "measure (\<lambda>(graph, goal_node, st). loop_measure graph st)")
  show "wf (measure (\<lambda>(graph, goal_node, st). loop_measure graph st))"
    by simp
next
  fix graph :: "'a graph" and goal_node st st'
  assume "bfs_step graph goal_node st = Continue st'"
  then have "loop_measure graph st' < loop_measure graph st"
    by (rule bfs_step_measure)
  then show "((graph, goal_node, st'), (graph, goal_node, st))
      \<in> measure (\<lambda>(graph, goal_node, st). loop_measure graph st)"
    by simp
qed

function dfs_loop :: "('a::linorder) graph \<Rightarrow> 'a \<Rightarrow> 'a search_state \<Rightarrow> py_error + 'a search_state" where
  "dfs_loop graph goal_node st =
    (if frontier st = [] then Inr st
     else
       (case dfs_step graph goal_node st of
          Raise e \<Rightarrow> Inl e
        | Break st' \<Rightarrow> Inr st'
        | Continue st' \<Rightarrow> dfs_loop graph goal_node st'))"
  by pat_completeness auto
termination
proof (relation "measure (\<lambda>(graph, goal_node, st). loop_measure graph st)")
  show "wf (measure (\<lambda>(graph, goal_node, st). loop_measure graph st))"
    by simp
next
  fix graph :: "'a graph" and goal_node st st'
  assume "dfs_step graph goal_node st = Continue st'"
  then have "loop_measure graph st' < loop_measure graph st"
    by (rule dfs_step_measure)
  then show "((graph, goal_node, st'), (graph, goal_node, st))
      \<in> measure (\<lambda>(graph, goal_node, st). loop_measure graph st)"
    by simp
qed

declare bfs_loop.simps [simp del] dfs_loop.simps [simp del]

section \<open>The path and the result\<close>

text \<open>
  The loop of lines 76 to 78 and 143 to 145 walks the parent map as long as \<open>curr\<close>
  (here \<open>node\<close>) is not \<open>None\<close>. On a parent map with a cycle it does not end: the value \<open>None\<close> of
  \<open>reconstruct\<close>.
\<close>

partial_function (option) reconstruct :: "('a \<rightharpoonup> 'a option) \<Rightarrow> 'a option \<Rightarrow> 'a list \<Rightarrow> 'a list option" where
  "reconstruct pm node path =
    (case node of
       None \<Rightarrow> Some path
     | Some c \<Rightarrow> reconstruct pm (case pm c of None \<Rightarrow> None | Some p \<Rightarrow> p) (path @ [c]))"

declare reconstruct.simps [code]

text \<open>
  Lines 72 to 81 and 139 to 148: what a search returns from the state its loop ends in.
  The result is \<open>None\<close> when the walk does not end, \<open>Some (Inl e)\<close> when the search
  raises \<open>e\<close>, and \<open>Some (Inr (path, process_steps, level))\<close> when it returns.
\<close>

type_synonym 'a search_result = "(py_error + 'a list \<times> 'a trace_step list \<times> ('a \<rightharpoonup> nat)) option"

definition finish :: "'a \<Rightarrow> py_error + 'a search_state \<Rightarrow> 'a search_result" where
  "finish goal_node r =
    (case r of
       Inl e \<Rightarrow> Some (Inl e)
     | Inr st \<Rightarrow>
        (case current_node st of
           None \<Rightarrow> Some (Inl UnboundLocalError)
         | Some cur \<Rightarrow>
            if cur = goal_node then
              (case reconstruct (parent_map st) (Some goal_node) [] of
                 None \<Rightarrow> None
               | Some path \<Rightarrow> Some (Inr (rev path, process_steps st, level st)))
            else Some (Inr ([], process_steps st, level st))))"

definition breadth_first_search :: "('a::linorder) graph \<Rightarrow> 'a \<Rightarrow> 'a \<Rightarrow> 'a search_result" where
  "breadth_first_search graph start_node goal_node =
    finish goal_node (bfs_loop graph goal_node (init_state start_node))"

definition depth_first_search :: "('a::linorder) graph \<Rightarrow> 'a \<Rightarrow> 'a \<Rightarrow> 'a search_result" where
  "depth_first_search graph start_node goal_node =
    finish goal_node (dfs_loop graph goal_node (init_state start_node))"

section \<open>What one iteration does\<close>

text \<open>
  The nodes the \<open>for\<close> loop appends to the frontier, in the order it appends them:
  the neighbours that are not visited yet, each once.
\<close>

fun fresh :: "'a set \<Rightarrow> 'a list \<Rightarrow> 'a list" where
  "fresh V [] = []"
| "fresh V (n # ns) = (if n \<in> V then fresh V ns else n # fresh (insert n V) ns)"

lemma set_fresh: "set (fresh V ns) = set ns - V"
  by (induction ns arbitrary: V) auto

lemma distinct_fresh: "distinct (fresh V ns)"
  by (induction ns arbitrary: V) (auto simp: set_fresh)

lemma sorted_wrt_fresh: "sorted_wrt P ns \<Longrightarrow> sorted_wrt P (fresh V ns)"
  by (induction ns arbitrary: V) (auto simp: set_fresh)

lemma discover_result:
  assumes "level st cur = Some l" and "cur \<in> visited st"
  shows "\<exists>st'. discover cur ns st = Inr st' \<and>
    visited st' = visited st \<union> set ns \<and>
    frontier st' = frontier st @ fresh (visited st) ns \<and>
    (\<forall>n. level st' n = (if n \<in> set ns - visited st then Some (l + 1) else level st n)) \<and>
    (\<forall>n. parent_map st' n =
       (if n \<in> set ns - visited st then Some (Some cur) else parent_map st n)) \<and>
    process_steps st' = process_steps st \<and>
    expansion_order st' = expansion_order st \<and>
    current_node st' = current_node st"
  using assms
proof (induction ns arbitrary: st)
  case Nil
  then show ?case by simp
next
  case (Cons n ns)
  show ?case
  proof (cases "n \<in> visited st")
    case True
    from Cons.IH [OF Cons.prems] obtain st' where
      "discover cur ns st = Inr st'" "visited st' = visited st \<union> set ns"
      "frontier st' = frontier st @ fresh (visited st) ns"
      "\<forall>n. level st' n = (if n \<in> set ns - visited st then Some (l + 1) else level st n)"
      "\<forall>n. parent_map st' n =
         (if n \<in> set ns - visited st then Some (Some cur) else parent_map st n)"
      "process_steps st' = process_steps st" "expansion_order st' = expansion_order st"
      "current_node st' = current_node st"
      by blast
    with True show ?thesis by auto
  next
    case False
    let ?st = "st\<lparr>visited := insert n (visited st),
      parent_map := (parent_map st)(n \<mapsto> Some cur),
      level := (level st)(n \<mapsto> l + 1), frontier := frontier st @ [n]\<rparr>"
    from False Cons.prems have ne: "n \<noteq> cur" by auto
    then have "level ?st cur = Some l" "cur \<in> visited ?st"
      using Cons.prems by auto
    from Cons.IH [OF this] obtain st' where
      "discover cur ns ?st = Inr st'" "visited st' = visited ?st \<union> set ns"
      "frontier st' = frontier ?st @ fresh (visited ?st) ns"
      "\<forall>m. level st' m = (if m \<in> set ns - visited ?st then Some (l + 1) else level ?st m)"
      "\<forall>m. parent_map st' m =
         (if m \<in> set ns - visited ?st then Some (Some cur) else parent_map ?st m)"
      "process_steps st' = process_steps ?st" "expansion_order st' = expansion_order ?st"
      "current_node st' = current_node ?st"
      by blast
    with False Cons.prems(1) show ?thesis by auto
  qed
qed

definition expands ::
  "'a graph \<Rightarrow> 'a \<Rightarrow> nat \<Rightarrow> 'a list \<Rightarrow> 'a list \<Rightarrow> 'a list \<Rightarrow>
   'a search_state \<Rightarrow> 'a search_state \<Rightarrow> bool" where
  "expands g cur l rest ns fr st st' \<longleftrightarrow>
     level st cur = Some l \<and> set ns = set (graph_get g cur) \<and>
     visited st' = visited st \<union> set ns \<and>
     frontier st' = rest @ fresh (visited st) ns \<and>
     (\<forall>n. level st' n = (if n \<in> set ns - visited st then Some (l + 1) else level st n)) \<and>
     (\<forall>n. parent_map st' n =
        (if n \<in> set ns - visited st then Some (Some cur) else parent_map st n)) \<and>
     process_steps st' = process_steps st @
       [\<lparr>Step = expansion_order st + 1, Expansion = Node cur, Level = l, Frontier = fr,
         Visited = visited st \<union> set ns\<rparr>] \<and>
     expansion_order st' = expansion_order st + 1 \<and>
     current_node st' = Some cur"

lemma bfs_step_expands:
  assumes f: "frontier st = cur # rest" and ne: "cur \<noteq> goal_node"
    and l: "level st cur = Some l" and v: "cur \<in> visited st"
  shows "\<exists>st'. bfs_step g goal_node st = Continue st' \<and>
    expands g cur l rest (sort (graph_get g cur)) (rest @ sort (frontier st')) st st'"
proof -
  let ?st1 = "st\<lparr>frontier := rest, current_node := Some cur,
    expansion_order := expansion_order st + 1\<rparr>"
  let ?ns = "sort (graph_get g cur)"
  have "level ?st1 cur = Some l" "cur \<in> visited ?st1"
    using l v by simp_all
  from discover_result [OF this, of ?ns] obtain st2 where
    d: "discover cur ?ns ?st1 = Inr st2" and
    r: "visited st2 = visited ?st1 \<union> set ?ns"
    "frontier st2 = frontier ?st1 @ fresh (visited ?st1) ?ns"
    "\<forall>n. level st2 n = (if n \<in> set ?ns - visited ?st1 then Some (l + 1) else level ?st1 n)"
    "\<forall>n. parent_map st2 n =
       (if n \<in> set ?ns - visited ?st1 then Some (Some cur) else parent_map ?st1 n)"
    "process_steps st2 = process_steps ?st1" "expansion_order st2 = expansion_order ?st1"
    "current_node st2 = current_node ?st1"
    by blast
  from r(3) l v have l2: "level st2 cur = Some l" by simp
  let ?st' = "st2\<lparr>process_steps := process_steps st2 @
    [\<lparr>Step = expansion_order st2, Expansion = Node cur, Level = l,
      Frontier = rest @ sort (frontier st2), Visited = visited st2\<rparr>]\<rparr>"
  from f ne d l2 have "bfs_step g goal_node st = Continue ?st'"
    by (simp add: bfs_step_def Let_def)
  moreover from r l have "expands g cur l rest ?ns (rest @ sort (frontier ?st')) st ?st'"
    by (simp add: expands_def)
  ultimately show ?thesis by blast
qed

lemma dfs_step_expands:
  assumes f: "frontier st = rest @ [cur]" and ne: "cur \<noteq> goal_node"
    and l: "level st cur = Some l" and v: "cur \<in> visited st"
  shows "\<exists>st'. dfs_step g goal_node st = Continue st' \<and>
    expands g cur l rest (rev (sort (graph_get g cur))) (rev (frontier st')) st st'"
proof -
  let ?st1 = "st\<lparr>frontier := rest, current_node := Some cur,
    expansion_order := expansion_order st + 1\<rparr>"
  let ?ns = "rev (sort (graph_get g cur))"
  have "level ?st1 cur = Some l" "cur \<in> visited ?st1"
    using l v by simp_all
  from discover_result [OF this, of ?ns] obtain st2 where
    d: "discover cur ?ns ?st1 = Inr st2" and
    r: "visited st2 = visited ?st1 \<union> set ?ns"
    "frontier st2 = frontier ?st1 @ fresh (visited ?st1) ?ns"
    "\<forall>n. level st2 n = (if n \<in> set ?ns - visited ?st1 then Some (l + 1) else level ?st1 n)"
    "\<forall>n. parent_map st2 n =
       (if n \<in> set ?ns - visited ?st1 then Some (Some cur) else parent_map ?st1 n)"
    "process_steps st2 = process_steps ?st1" "expansion_order st2 = expansion_order ?st1"
    "current_node st2 = current_node ?st1"
    by blast
  from r(3) l v have l2: "level st2 cur = Some l" by simp
  let ?st' = "st2\<lparr>process_steps := process_steps st2 @
    [\<lparr>Step = expansion_order st2, Expansion = Node cur, Level = l,
      Frontier = rev (frontier st2), Visited = visited st2\<rparr>]\<rparr>"
  from f ne d l2 have "dfs_step g goal_node st = Continue ?st'"
    by (simp add: dfs_step_def Let_def)
  moreover from r l have "expands g cur l rest ?ns (rev (frontier ?st')) st ?st'"
    by (simp add: expands_def)
  ultimately show ?thesis by blast
qed

definition edges :: "'a graph \<Rightarrow> ('a \<times> 'a) set" where
  "edges g = {(u, v). v \<in> set (graph_get g u)}"

definition search_inv :: "'a graph \<Rightarrow> 'a \<Rightarrow> 'a search_state \<Rightarrow> bool" where
  "search_inv g s st \<longleftrightarrow>
     dom (parent_map st) = visited st \<and> dom (level st) = visited st \<and>
     set (frontier st) \<subseteq> visited st \<and> distinct (frontier st) \<and> finite (visited st) \<and>
     expansion_order st + length (frontier st) = card (visited st) \<and>
     parent_map st s = Some None \<and> level st s = Some 0 \<and>
     (\<forall>n p. parent_map st n = Some (Some p) \<longrightarrow>
        n \<noteq> s \<and> n \<in> set (graph_get g p) \<and>
        (\<exists>l. level st p = Some l \<and> level st n = Some (l + 1))) \<and>
     (\<forall>n. n \<in> visited st \<longrightarrow> n \<noteq> s \<longrightarrow> (\<exists>p. parent_map st n = Some (Some p))) \<and>
     (\<forall>n l. level st n = Some l \<longrightarrow> (s, n) \<in> edges g ^^ l)"

lemma search_inv_init: "search_inv g s (init_state s)"
  by (auto simp: search_inv_def init_state_def split: if_splits)

lemma expands_inv:
  assumes inv: "search_inv g s st"
    and f: "frontier st = cur # rest \<or> frontier st = rest @ [cur]"
    and e: "expands g cur l rest ns fr st st'"
  shows "search_inv g s st'"
proof -
  let ?V = "visited st"
  from inv have dp: "dom (parent_map st) = ?V" and dl: "dom (level st) = ?V"
    and sub: "set (frontier st) \<subseteq> ?V" and dist: "distinct (frontier st)"
    and fin: "finite ?V"
    and cnt: "expansion_order st + length (frontier st) = card ?V"
    and ps: "parent_map st s = Some None" and ls: "level st s = Some 0"
    and par: "\<And>n p. parent_map st n = Some (Some p) \<Longrightarrow>
        n \<noteq> s \<and> n \<in> set (graph_get g p) \<and>
        (\<exists>l. level st p = Some l \<and> level st n = Some (l + 1))"
    and hasp: "\<And>n. n \<in> ?V \<Longrightarrow> n \<noteq> s \<Longrightarrow> \<exists>p. parent_map st n = Some (Some p)"
    and path: "\<And>n l. level st n = Some l \<Longrightarrow> (s, n) \<in> edges g ^^ l"
    unfolding search_inv_def by blast+
  from e have lc: "level st cur = Some l" and ns: "set ns = set (graph_get g cur)"
    and v': "visited st' = ?V \<union> set ns"
    and f': "frontier st' = rest @ fresh ?V ns"
    and l': "\<And>n. level st' n = (if n \<in> set ns - ?V then Some (l + 1) else level st n)"
    and p': "\<And>n. parent_map st' n =
        (if n \<in> set ns - ?V then Some (Some cur) else parent_map st n)"
    and eo': "expansion_order st' = expansion_order st + 1"
    unfolding expands_def by blast+
  from f sub dist have cur: "cur \<in> ?V" and rest: "set rest \<subseteq> ?V" "distinct rest"
    and len: "length (frontier st) = length rest + 1"
    by auto
  from ps dp have sV: "s \<in> ?V" by auto
  have c1: "dom (parent_map st') = visited st'"
    using dp by (auto simp: p' v' dom_def)
  have c2: "dom (level st') = visited st'"
    using dl by (auto simp: l' v' dom_def)
  have c3: "set (frontier st') \<subseteq> visited st'"
    using rest by (auto simp: f' v' set_fresh)
  have c4: "distinct (frontier st')"
    using rest by (auto simp: f' distinct_fresh set_fresh)
  have c5: "finite (visited st')"
    using fin by (simp add: v')
  have "card (?V \<union> set ns) = card ?V + card (set ns - ?V)"
    using fin by (metis List.finite_set card_Un_disjoint Diff_disjoint Un_Diff_cancel finite_Diff)
  moreover have "card (set ns - ?V) = length (fresh ?V ns)"
    using distinct_card [OF distinct_fresh [of ?V ns]] by (simp add: set_fresh)
  ultimately have c6: "expansion_order st' + length (frontier st') = card (visited st')"
    using cnt len by (simp add: eo' f' v')
  have c7: "parent_map st' s = Some None" "level st' s = Some 0"
    using ps ls sV by (simp_all add: p' l')
  have lold: "level st' n = level st n" if "n \<in> ?V" for n
    using that by (simp add: l')
  have c8: "n \<noteq> s \<and> n \<in> set (graph_get g p) \<and>
        (\<exists>k. level st' p = Some k \<and> level st' n = Some (k + 1))"
    if "parent_map st' n = Some (Some p)" for n p
  proof (cases "n \<in> set ns - ?V")
    case True
    with that have "p = cur" by (auto simp: p' split: if_splits)
    with True sV ns lc cur show ?thesis by (auto simp: l')
  next
    case False
    with that have old: "parent_map st n = Some (Some p)" by (auto simp: p' split: if_splits)
    from par [OF this] obtain k where k: "n \<noteq> s" "n \<in> set (graph_get g p)"
      "level st p = Some k" "level st n = Some (k + 1)" by blast
    from k dl have "p \<in> ?V" "n \<in> ?V" by auto
    with k show ?thesis by (simp add: lold)
  qed
  have c9: "\<exists>p. parent_map st' n = Some (Some p)" if "n \<in> visited st'" "n \<noteq> s" for n
    using that hasp by (auto simp: p' v')
  have c10: "(s, n) \<in> edges g ^^ k" if "level st' n = Some k" for n k
  proof (cases "n \<in> set ns - ?V")
    case True
    with that have "k = l + 1" by (auto simp: l' split: if_splits)
    moreover have "(s, cur) \<in> edges g ^^ l" using path lc by blast
    moreover have "(cur, n) \<in> edges g" using True ns by (simp add: edges_def)
    ultimately show ?thesis by (auto intro: relpow_Suc_I)
  next
    case False
    with that path show ?thesis by (auto simp: l' split: if_splits)
  qed
  show ?thesis
    unfolding search_inv_def using c1 c2 c3 c4 c5 c6 c7 c8 c9 c10 by blast
qed

definition expansions :: "'a trace_step list \<Rightarrow> 'a list" where
  "expansions ps = concat (map (\<lambda>r. case Expansion r of Start \<Rightarrow> [] | Node n \<Rightarrow> [n]) ps)"

definition trace_inv :: "'a search_state \<Rightarrow> bool" where
  "trace_inv st \<longleftrightarrow>
     process_steps st \<noteq> [] \<and> Visited (last (process_steps st)) = visited st \<and>
     (\<forall>i. Suc i < length (process_steps st) \<longrightarrow>
        Visited (process_steps st ! i) \<subseteq> Visited (process_steps st ! Suc i)) \<and>
     map Step (process_steps st) = [0..<Suc (expansion_order st)] \<and>
     length (expansions (process_steps st)) = expansion_order st \<and>
     distinct (expansions (process_steps st) @ frontier st) \<and>
     set (expansions (process_steps st) @ frontier st) = visited st"

lemma trace_inv_init: "trace_inv (init_state s)"
  by (simp add: trace_inv_def init_state_def expansions_def)

lemma expands_trace_inv:
  assumes inv: "trace_inv st"
    and f: "frontier st = cur # rest \<or> frontier st = rest @ [cur]"
    and e: "expands g cur l rest ns fr st st'"
  shows "trace_inv st'"
proof -
  let ?ps = "process_steps st"
  let ?V = "visited st"
  let ?r = "\<lparr>Step = expansion_order st + 1, Expansion = Node cur, Level = l, Frontier = fr,
         Visited = ?V \<union> set ns\<rparr>"
  from inv have ne: "?ps \<noteq> []" and lastV: "Visited (last ?ps) = ?V"
    and mono: "\<And>i. Suc i < length ?ps \<Longrightarrow> Visited (?ps ! i) \<subseteq> Visited (?ps ! Suc i)"
    and steps: "map Step ?ps = [0..<Suc (expansion_order st)]"
    and lenx: "length (expansions ?ps) = expansion_order st"
    and dist: "distinct (expansions ?ps @ frontier st)"
    and all: "set (expansions ?ps @ frontier st) = ?V"
    unfolding trace_inv_def by blast+
  from e have v': "visited st' = ?V \<union> set ns"
    and f': "frontier st' = rest @ fresh ?V ns"
    and p': "process_steps st' = ?ps @ [?r]"
    and eo': "expansion_order st' = expansion_order st + 1"
    unfolding expands_def by blast+
  have c1: "process_steps st' \<noteq> []" "Visited (last (process_steps st')) = visited st'"
    by (simp_all add: p' v')
  have c2: "Visited (process_steps st' ! i) \<subseteq> Visited (process_steps st' ! Suc i)"
    if "Suc i < length (process_steps st')" for i
  proof (cases "Suc i < length ?ps")
    case True
    with mono [OF True] show ?thesis by (simp add: p' nth_append)
  next
    case False
    with that have i: "i = length ?ps - 1" "Suc i = length ?ps" by (simp_all add: p')
    with ne have "?ps ! i = last ?ps" by (simp add: last_conv_nth)
    with i ne lastV show ?thesis by (auto simp: p' nth_append)
  qed
  have c3: "map Step (process_steps st') = [0..<Suc (expansion_order st')]"
    using steps by (simp add: p' eo')
  have ex: "expansions (process_steps st') = expansions ?ps @ [cur]"
    by (simp add: p' expansions_def)
  have c3': "length (expansions (process_steps st')) = expansion_order st'"
    using lenx by (simp add: ex eo')
  from f have fs: "set (frontier st) = insert cur (set rest)" by auto
  from dist f have parts: "distinct (expansions ?ps)" "distinct rest"
    "cur \<notin> set (expansions ?ps)" "cur \<notin> set rest"
    "set (expansions ?ps) \<inter> set rest = {}"
    by auto
  from all fs have un: "set (expansions ?ps) \<union> insert cur (set rest) = ?V" by simp
  then have sub: "set (expansions ?ps) \<subseteq> ?V" "set rest \<subseteq> ?V" "cur \<in> ?V"
    by blast+
  have fr: "set (fresh ?V ns) \<inter> ?V = {}" by (simp add: set_fresh Diff_Int_distrib2)
  have c4: "distinct (expansions (process_steps st') @ frontier st')"
    unfolding ex f' using parts sub fr distinct_fresh [of ?V ns] by (simp add: disjoint_iff) blast
  have "set (expansions (process_steps st') @ frontier st') =
      (set (expansions ?ps) \<union> insert cur (set rest)) \<union> (set ns - ?V)"
    unfolding ex f' by (simp add: set_fresh Un_ac)
  then have c5: "set (expansions (process_steps st') @ frontier st') = visited st'"
    unfolding un v' by blast
  show ?thesis
    unfolding trace_inv_def using c1 c2 c3 c3' c4 c5 by blast
qed

inductive head :: "('a search_state \<Rightarrow> 'a search_state outcome) \<Rightarrow> 'a \<Rightarrow> 'a search_state \<Rightarrow> bool"
  for step :: "'a search_state \<Rightarrow> 'a search_state outcome" and s :: 'a where
  head_init: "head step s (init_state s)"
| head_step: "head step s st \<Longrightarrow> step st = Continue st' \<Longrightarrow> head step s st'"

lemma search_inv_frontier:
  assumes "search_inv g s st" and "cur \<in> set (frontier st)"
  shows "cur \<in> visited st" and "\<exists>l. level st cur = Some l"
proof -
  from assms(1) have sub: "set (frontier st) \<subseteq> visited st"
    and dl: "dom (level st) = visited st"
    unfolding search_inv_def by blast+
  from sub assms(2) show "cur \<in> visited st" by blast
  with dl have "cur \<in> dom (level st)" by simp
  then show "\<exists>l. level st cur = Some l" by (rule domD)
qed

lemma bfs_head_inv:
  assumes "head (bfs_step g t) s st"
  shows "search_inv g s st \<and> trace_inv st"
  using assms
proof (induction rule: head.induct)
  case head_init
  show ?case by (simp add: search_inv_init trace_inv_init)
next
  case (head_step st st')
  from head_step.IH have inv: "search_inv g s st" and tinv: "trace_inv st" by simp_all
  from head_step.hyps(2) obtain cur rest where f: "frontier st = cur # rest" and ne: "cur \<noteq> t"
    by (rule bfs_step_Continue)
  from f have "cur \<in> set (frontier st)" by simp
  from search_inv_frontier [OF inv this] obtain l where
    l: "level st cur = Some l" "cur \<in> visited st" by blast
  from bfs_step_expands [OF f ne l, of g] obtain st'' where
    s: "bfs_step g t st = Continue st''" and
    e: "expands g cur l rest (sort (graph_get g cur)) (rest @ sort (frontier st'')) st st''"
    by blast
  from s head_step.hyps(2) have eq: "st'' = st'" by simp
  from f have f2: "frontier st = cur # rest \<or> frontier st = rest @ [cur]" by simp
  from expands_inv [OF inv f2 e] expands_trace_inv [OF tinv f2 e] eq
  show ?case by simp
qed

lemma dfs_head_inv:
  assumes "head (dfs_step g t) s st"
  shows "search_inv g s st \<and> trace_inv st"
  using assms
proof (induction rule: head.induct)
  case head_init
  show ?case by (simp add: search_inv_init trace_inv_init)
next
  case (head_step st st')
  from head_step.IH have inv: "search_inv g s st" and tinv: "trace_inv st" by simp_all
  let ?cur = "last (frontier st)"
  let ?rest = "butlast (frontier st)"
  from head_step.hyps(2) obtain nonempty: "frontier st \<noteq> []" and ne: "?cur \<noteq> t"
    by (rule dfs_step_Continue)
  then have f: "frontier st = ?rest @ [?cur]" by simp
  from nonempty have "?cur \<in> set (frontier st)" by simp
  from search_inv_frontier [OF inv this] obtain l where
    l: "level st ?cur = Some l" "?cur \<in> visited st" by blast
  from dfs_step_expands [OF f ne l, of g] obtain st'' where
    s: "dfs_step g t st = Continue st''" and
    e: "expands g ?cur l ?rest (rev (sort (graph_get g ?cur))) (rev (frontier st'')) st st''"
    by blast
  from s head_step.hyps(2) have eq: "st'' = st'" by simp
  from f have f2: "frontier st = ?cur # ?rest \<or> frontier st = ?rest @ [?cur]"
    by (rule disjI2)
  from expands_inv [OF inv f2 e] expands_trace_inv [OF tinv f2 e] eq
  show ?case by simp
qed

definition goal_inv :: "'a \<Rightarrow> 'a search_state \<Rightarrow> bool" where
  "goal_inv t st \<longleftrightarrow>
     (current_node st = None \<longrightarrow> frontier st \<noteq> []) \<and> current_node st \<noteq> Some t \<and>
     t \<notin> set (expansions (process_steps st))"

lemma goal_inv_init: "goal_inv t (init_state s)"
  by (simp add: goal_inv_def init_state_def expansions_def)

lemma expands_goal_inv:
  assumes "goal_inv t st" and "cur \<noteq> t" and "expands g cur l rest ns fr st st'"
  shows "goal_inv t st'"
proof -
  from assms(3) have "current_node st' = Some cur"
    and "process_steps st' = process_steps st @
       [\<lparr>Step = expansion_order st + 1, Expansion = Node cur, Level = l, Frontier = fr,
         Visited = visited st \<union> set ns\<rparr>]"
    unfolding expands_def by blast+
  with assms(1,2) show ?thesis
    by (simp add: goal_inv_def expansions_def)
qed

lemma bfs_head_goal_inv:
  assumes "head (bfs_step g t) s st"
  shows "goal_inv t st"
  using assms
proof (induction rule: head.induct)
  case head_init
  show ?case by (rule goal_inv_init)
next
  case (head_step st st')
  from head_step.hyps(1) have inv: "search_inv g s st" by (simp add: bfs_head_inv)
  from head_step.hyps(2) obtain cur rest where f: "frontier st = cur # rest" and ne: "cur \<noteq> t"
    by (rule bfs_step_Continue)
  from f have "cur \<in> set (frontier st)" by simp
  from search_inv_frontier [OF inv this] obtain l where
    l: "level st cur = Some l" "cur \<in> visited st" by blast
  from bfs_step_expands [OF f ne l, of g] obtain st'' where
    s: "bfs_step g t st = Continue st''" and
    e: "expands g cur l rest (sort (graph_get g cur)) (rest @ sort (frontier st'')) st st''"
    by blast
  from s head_step.hyps(2) have eq: "st'' = st'" by simp
  from expands_goal_inv [OF head_step.IH ne e] eq show ?case by simp
qed

lemma dfs_head_goal_inv:
  assumes "head (dfs_step g t) s st"
  shows "goal_inv t st"
  using assms
proof (induction rule: head.induct)
  case head_init
  show ?case by (rule goal_inv_init)
next
  case (head_step st st')
  from head_step.hyps(1) have inv: "search_inv g s st" by (simp add: dfs_head_inv)
  let ?cur = "last (frontier st)"
  let ?rest = "butlast (frontier st)"
  from head_step.hyps(2) obtain nonempty: "frontier st \<noteq> []" and ne: "?cur \<noteq> t"
    by (rule dfs_step_Continue)
  then have f: "frontier st = ?rest @ [?cur]" by simp
  from nonempty have "?cur \<in> set (frontier st)" by simp
  from search_inv_frontier [OF inv this] obtain l where
    l: "level st ?cur = Some l" "?cur \<in> visited st" by blast
  from dfs_step_expands [OF f ne l, of g] obtain st'' where
    s: "dfs_step g t st = Continue st''" and
    e: "expands g ?cur l ?rest (rev (sort (graph_get g ?cur))) (rev (frontier st'')) st st''"
    by blast
  from s head_step.hyps(2) have eq: "st'' = st'" by simp
  from expands_goal_inv [OF head_step.IH ne e] eq show ?case by simp
qed

lemma bfs_loop_final:
  assumes "head (bfs_step g t) s st"
  shows "\<exists>st0. head (bfs_step g t) s st0 \<and>
    ((frontier st0 = [] \<and> bfs_loop g t st = Inr st0) \<or>
     (\<exists>rest. frontier st0 = t # rest \<and>
        bfs_loop g t st = Inr (st0\<lparr>frontier := rest, current_node := Some t,
          expansion_order := expansion_order st0 + 1\<rparr>)))"
  using assms
proof (induction g t st rule: bfs_loop.induct)
  case (1 g t st)
  show ?case
  proof (cases "frontier st")
    case Nil
    then have "bfs_loop g t st = Inr st" by (subst bfs_loop.simps) simp
    with Nil "1.prems" show ?thesis by blast
  next
    case (Cons cur rest)
    show ?thesis
    proof (cases "cur = t")
      case True
      with Cons have "bfs_step g t st = Break (st\<lparr>frontier := rest, current_node := Some t,
          expansion_order := expansion_order st + 1\<rparr>)"
        by (simp add: bfs_step_def)
      with Cons have "bfs_loop g t st = Inr (st\<lparr>frontier := rest, current_node := Some t,
          expansion_order := expansion_order st + 1\<rparr>)"
        by (subst bfs_loop.simps) simp
      with Cons True "1.prems" show ?thesis by blast
    next
      case False
      from "1.prems" have inv: "search_inv g s st" by (simp add: bfs_head_inv)
      from Cons have "cur \<in> set (frontier st)" by simp
      from search_inv_frontier [OF inv this] obtain l where
        l: "level st cur = Some l" "cur \<in> visited st" by blast
      from bfs_step_expands [OF Cons False l, of g] obtain st' where
        s: "bfs_step g t st = Continue st'" by blast
      with "1.prems" have h: "head (bfs_step g t) s st'" by (rule head_step)
      from Cons have ne: "frontier st \<noteq> []" by simp
      from Cons s have "bfs_loop g t st = bfs_loop g t st'"
        by (subst bfs_loop.simps) simp
      with "1.IH" [OF ne s h] show ?thesis by simp
    qed
  qed
qed

lemma dfs_loop_final:
  assumes "head (dfs_step g t) s st"
  shows "\<exists>st0. head (dfs_step g t) s st0 \<and>
    ((frontier st0 = [] \<and> dfs_loop g t st = Inr st0) \<or>
     (\<exists>rest. frontier st0 = rest @ [t] \<and>
        dfs_loop g t st = Inr (st0\<lparr>frontier := rest, current_node := Some t,
          expansion_order := expansion_order st0 + 1\<rparr>)))"
  using assms
proof (induction g t st rule: dfs_loop.induct)
  case (1 g t st)
  show ?case
  proof (cases "frontier st = []")
    case True
    then have "dfs_loop g t st = Inr st" by (subst dfs_loop.simps) simp
    with True "1.prems" show ?thesis by blast
  next
    case ne: False
    let ?cur = "last (frontier st)"
    let ?rest = "butlast (frontier st)"
    from ne have f: "frontier st = ?rest @ [?cur]" by simp
    show ?thesis
    proof (cases "?cur = t")
      case True
      with ne have "dfs_step g t st = Break (st\<lparr>frontier := ?rest, current_node := Some t,
          expansion_order := expansion_order st + 1\<rparr>)"
        by (simp add: dfs_step_def Let_def)
      with ne have "dfs_loop g t st = Inr (st\<lparr>frontier := ?rest, current_node := Some t,
          expansion_order := expansion_order st + 1\<rparr>)"
        by (subst dfs_loop.simps) simp
      moreover from f True have "frontier st = ?rest @ [t]" by metis
      ultimately show ?thesis using "1.prems" by blast
    next
      case False
      from "1.prems" have inv: "search_inv g s st" by (simp add: dfs_head_inv)
      from ne have "?cur \<in> set (frontier st)" by simp
      from search_inv_frontier [OF inv this] obtain l where
        l: "level st ?cur = Some l" "?cur \<in> visited st" by blast
      from dfs_step_expands [OF f False l, of g] obtain st' where
        s: "dfs_step g t st = Continue st'" by blast
      with "1.prems" have h: "head (dfs_step g t) s st'" by (rule head_step)
      from ne s have "dfs_loop g t st = dfs_loop g t st'"
        by (subst dfs_loop.simps) simp
      with "1.IH" [OF ne s h] show ?thesis by simp
    qed
  qed
qed

lemma search_inv_level0:
  assumes inv: "search_inv g s st" and l: "level st n = Some 0"
  shows "n = s"
proof (rule ccontr)
  assume ne: "n \<noteq> s"
  from inv have dl: "dom (level st) = visited st"
    and par: "\<And>n p. parent_map st n = Some (Some p) \<Longrightarrow>
        n \<noteq> s \<and> n \<in> set (graph_get g p) \<and>
        (\<exists>l. level st p = Some l \<and> level st n = Some (l + 1))"
    and hasp: "\<And>n. n \<in> visited st \<Longrightarrow> n \<noteq> s \<Longrightarrow> \<exists>p. parent_map st n = Some (Some p)"
    unfolding search_inv_def by blast+
  from l dl have "n \<in> visited st" by blast
  from hasp [OF this ne] obtain p where "parent_map st n = Some (Some p)" by blast
  from par [OF this] l show False by auto
qed

lemma search_inv_parent:
  assumes inv: "search_inv g s st" and l: "level st n = Some (Suc k)"
  obtains p where "parent_map st n = Some (Some p)" "n \<in> set (graph_get g p)"
    "level st p = Some k"
proof -
  from inv have dl: "dom (level st) = visited st" and ls: "level st s = Some 0"
    and par: "\<And>n p. parent_map st n = Some (Some p) \<Longrightarrow>
        n \<noteq> s \<and> n \<in> set (graph_get g p) \<and>
        (\<exists>l. level st p = Some l \<and> level st n = Some (l + 1))"
    and hasp: "\<And>n. n \<in> visited st \<Longrightarrow> n \<noteq> s \<Longrightarrow> \<exists>p. parent_map st n = Some (Some p)"
    unfolding search_inv_def by blast+
  from l ls have ne: "n \<noteq> s" by auto
  from l dl have "n \<in> visited st" by blast
  from hasp [OF this ne] obtain p where p: "parent_map st n = Some (Some p)" by blast
  from par [OF this] l have "n \<in> set (graph_get g p)" "level st p = Some k" by auto
  with p show ?thesis by (rule that)
qed

lemma reconstruct_path:
  assumes inv: "search_inv g s st" and l: "level st n = Some l"
  shows "\<exists>p. reconstruct (parent_map st) (Some n) acc = Some (acc @ p) \<and>
    length p = Suc l \<and> hd p = n \<and> last p = s \<and>
    successively (\<lambda>v u. v \<in> set (graph_get g u)) p"
  using l
proof (induction l arbitrary: n acc)
  case 0
  with inv have "n = s" by (rule search_inv_level0)
  moreover from inv have "parent_map st s = Some None"
    unfolding search_inv_def by blast
  ultimately have "reconstruct (parent_map st) (Some n) acc = Some (acc @ [s])"
    by (simp add: reconstruct.simps)
  with \<open>n = s\<close> show ?case by simp
next
  case (Suc k)
  from search_inv_parent [OF inv Suc.prems] obtain p where
    p: "parent_map st n = Some (Some p)" "n \<in> set (graph_get g p)" "level st p = Some k"
    by blast
  from Suc.IH [OF p(3), of "acc @ [n]"] obtain q where
    q: "reconstruct (parent_map st) (Some p) (acc @ [n]) = Some ((acc @ [n]) @ q)"
    "length q = Suc k" "hd q = p" "last q = s"
    "successively (\<lambda>v u. v \<in> set (graph_get g u)) q"
    by blast
  from p(1) q(1) have "reconstruct (parent_map st) (Some n) acc = Some (acc @ (n # q))"
    by (subst reconstruct.simps) simp
  moreover from q(2) have "q \<noteq> []" by auto
  with q p(2) have "successively (\<lambda>v u. v \<in> set (graph_get g u)) (n # q)"
    by (cases q) auto
  ultimately show ?case using q \<open>q \<noteq> []\<close> by auto
qed

definition outcome :: "'a graph \<Rightarrow> 'a \<Rightarrow> 'a \<Rightarrow> 'a search_state \<Rightarrow> 'a search_result \<Rightarrow> bool" where
  "outcome g s t st r \<longleftrightarrow>
     (frontier st = [] \<and> r = Some (Inr ([], process_steps st, level st))) \<or>
     (t \<in> set (frontier st) \<and>
      (\<exists>l p. level st t = Some l \<and> length p = Suc l \<and> hd p = s \<and> last p = t \<and>
         successively (\<lambda>u v. v \<in> set (graph_get g u)) p \<and>
         r = Some (Inr (p, process_steps st, level st))))"

lemma finish_exhausted:
  assumes "goal_inv t st" and "frontier st = []"
  shows "finish t (Inr st) = Some (Inr ([], process_steps st, level st))"
proof -
  from assms obtain c where "current_node st = Some c" "c \<noteq> t"
    unfolding goal_inv_def by (cases "current_node st") auto
  then show ?thesis by (simp add: finish_def)
qed

lemma finish_found:
  assumes inv: "search_inv g s st" and t: "t \<in> set (frontier st)"
  shows "\<exists>l p. level st t = Some l \<and> length p = Suc l \<and> hd p = s \<and> last p = t \<and>
    successively (\<lambda>u v. v \<in> set (graph_get g u)) p \<and>
    finish t (Inr (st\<lparr>frontier := rest, current_node := Some t,
          expansion_order := expansion_order st + 1\<rparr>)) =
      Some (Inr (p, process_steps st, level st))"
proof -
  from search_inv_frontier [OF inv t] obtain l where l: "level st t = Some l" by blast
  from reconstruct_path [OF inv l, of "[]"] obtain q where
    q: "reconstruct (parent_map st) (Some t) [] = Some q" "length q = Suc l" "hd q = t"
    "last q = s" "successively (\<lambda>v u. v \<in> set (graph_get g u)) q"
    by auto
  from q(2) have ne: "q \<noteq> []" by auto
  have "length (rev q) = Suc l" using q(2) by simp
  moreover have "hd (rev q) = s" using q(4) ne by (simp add: hd_rev)
  moreover have "last (rev q) = t" using q(3) ne by (simp add: last_rev)
  moreover have "successively (\<lambda>u v. v \<in> set (graph_get g u)) (rev q)"
    using q(5) by (simp add: successively_rev)
  moreover have "finish t (Inr (st\<lparr>frontier := rest, current_node := Some t,
          expansion_order := expansion_order st + 1\<rparr>)) =
      Some (Inr (rev q, process_steps st, level st))"
    using q(1) by (simp add: finish_def)
  ultimately show ?thesis using l by blast
qed

lemma bfs_outcome:
  "\<exists>st. head (bfs_step g t) s st \<and>
     ((frontier st = [] \<and> bfs_loop g t (init_state s) = Inr st) \<or>
      (\<exists>rest. frontier st = t # rest \<and>
         bfs_loop g t (init_state s) = Inr (st\<lparr>frontier := rest, current_node := Some t,
           expansion_order := expansion_order st + 1\<rparr>))) \<and>
     outcome g s t st (breadth_first_search g s t)"
proof -
  have "head (bfs_step g t) s (init_state s)" by (rule head_init)
  from bfs_loop_final [OF this] obtain st0 where h: "head (bfs_step g t) s st0" and
    c: "(frontier st0 = [] \<and> bfs_loop g t (init_state s) = Inr st0) \<or>
     (\<exists>rest. frontier st0 = t # rest \<and>
        bfs_loop g t (init_state s) = Inr (st0\<lparr>frontier := rest, current_node := Some t,
          expansion_order := expansion_order st0 + 1\<rparr>))"
    by blast
  from h have inv: "search_inv g s st0" and ginv: "goal_inv t st0"
    by (simp_all add: bfs_head_inv bfs_head_goal_inv)
  from c show ?thesis
  proof
    assume a: "frontier st0 = [] \<and> bfs_loop g t (init_state s) = Inr st0"
    with finish_exhausted [OF ginv] have
      "breadth_first_search g s t = Some (Inr ([], process_steps st0, level st0))"
      by (simp add: breadth_first_search_def)
    with a have "outcome g s t st0 (breadth_first_search g s t)"
      unfolding outcome_def by blast
    with a h show ?thesis by blast
  next
    assume "\<exists>rest. frontier st0 = t # rest \<and>
        bfs_loop g t (init_state s) = Inr (st0\<lparr>frontier := rest, current_node := Some t,
          expansion_order := expansion_order st0 + 1\<rparr>)"
    then obtain rest where f: "frontier st0 = t # rest" and
      b: "bfs_loop g t (init_state s) = Inr (st0\<lparr>frontier := rest, current_node := Some t,
          expansion_order := expansion_order st0 + 1\<rparr>)" by blast
    from f have t: "t \<in> set (frontier st0)" by simp
    from finish_found [OF inv t, of rest] b have
      "\<exists>l p. level st0 t = Some l \<and> length p = Suc l \<and> hd p = s \<and> last p = t \<and>
         successively (\<lambda>u v. v \<in> set (graph_get g u)) p \<and>
         breadth_first_search g s t = Some (Inr (p, process_steps st0, level st0))"
      by (simp add: breadth_first_search_def)
    with t have "outcome g s t st0 (breadth_first_search g s t)"
      unfolding outcome_def by blast
    with h f b show ?thesis by blast
  qed
qed

lemma dfs_outcome:
  "\<exists>st. head (dfs_step g t) s st \<and>
     ((frontier st = [] \<and> dfs_loop g t (init_state s) = Inr st) \<or>
      (\<exists>rest. frontier st = rest @ [t] \<and>
         dfs_loop g t (init_state s) = Inr (st\<lparr>frontier := rest, current_node := Some t,
           expansion_order := expansion_order st + 1\<rparr>))) \<and>
     outcome g s t st (depth_first_search g s t)"
proof -
  have "head (dfs_step g t) s (init_state s)" by (rule head_init)
  from dfs_loop_final [OF this] obtain st0 where h: "head (dfs_step g t) s st0" and
    c: "(frontier st0 = [] \<and> dfs_loop g t (init_state s) = Inr st0) \<or>
     (\<exists>rest. frontier st0 = rest @ [t] \<and>
        dfs_loop g t (init_state s) = Inr (st0\<lparr>frontier := rest, current_node := Some t,
          expansion_order := expansion_order st0 + 1\<rparr>))"
    by blast
  from h have inv: "search_inv g s st0" and ginv: "goal_inv t st0"
    by (simp_all add: dfs_head_inv dfs_head_goal_inv)
  from c show ?thesis
  proof
    assume a: "frontier st0 = [] \<and> dfs_loop g t (init_state s) = Inr st0"
    with finish_exhausted [OF ginv] have
      "depth_first_search g s t = Some (Inr ([], process_steps st0, level st0))"
      by (simp add: depth_first_search_def)
    with a have "outcome g s t st0 (depth_first_search g s t)"
      unfolding outcome_def by blast
    with a h show ?thesis by blast
  next
    assume "\<exists>rest. frontier st0 = rest @ [t] \<and>
        dfs_loop g t (init_state s) = Inr (st0\<lparr>frontier := rest, current_node := Some t,
          expansion_order := expansion_order st0 + 1\<rparr>)"
    then obtain rest where f: "frontier st0 = rest @ [t]" and
      b: "dfs_loop g t (init_state s) = Inr (st0\<lparr>frontier := rest, current_node := Some t,
          expansion_order := expansion_order st0 + 1\<rparr>)" by blast
    from f have t: "t \<in> set (frontier st0)" by simp
    from finish_found [OF inv t, of rest] b have
      "\<exists>l p. level st0 t = Some l \<and> length p = Suc l \<and> hd p = s \<and> last p = t \<and>
         successively (\<lambda>u v. v \<in> set (graph_get g u)) p \<and>
         depth_first_search g s t = Some (Inr (p, process_steps st0, level st0))"
      by (simp add: depth_first_search_def)
    with t have "outcome g s t st0 (depth_first_search g s t)"
      unfolding outcome_def by blast
    with h f b show ?thesis by blast
  qed
qed

section \<open>The fixed graph\<close>

text \<open>
  C7. On the fixed graph with start \<open>A\<close> and goal \<open>F\<close> the breadth-first search
  returns the path \<open>A, B, G, F\<close>, and its level map has \<open>A = 0\<close>, \<open>B = 1\<close>,
  \<open>D = 1\<close>, \<open>C = 2\<close>, \<open>E = 2\<close>, \<open>G = 2\<close> and \<open>F = 3\<close>
  (and \<open>H = 3\<close>, which the search discovers from \<open>E\<close> before it reaches the goal).
\<close>

theorem bfs_fixed_graph:
  "(case breadth_first_search GRAPH ''A'' ''F'' of
      Some (Inr (path, steps, lvl)) \<Rightarrow>
        path = [''A'', ''B'', ''G'', ''F''] \<and>
        lvl ''A'' = Some 0 \<and> lvl ''B'' = Some 1 \<and> lvl ''D'' = Some 1 \<and>
        lvl ''C'' = Some 2 \<and> lvl ''E'' = Some 2 \<and> lvl ''G'' = Some 2 \<and>
        lvl ''F'' = Some 3 \<and> lvl ''H'' = Some 3
    | _ \<Rightarrow> False)"
  by code_simp

text \<open>
  C4. The record of a step of the breadth-first search does not hold the queue as it is at
  the end of the step. Line 68 builds the field from \<open>new_frontier\<close>, the queue as it
  was before the neighbours were added, followed by the whole sorted queue, so every node
  that was waiting already is listed twice. On the fixed graph with start \<open>A\<close> and goal
  \<open>F\<close>, after the second iteration (which expands \<open>B\<close>) the queue is
  \<open>D, C, E, G\<close> and the record holds \<open>D, C, D, E, G\<close>.
\<close>

theorem bfs_frontier_snapshot_duplicates:
  "(case bfs_step GRAPH ''F'' (init_state ''A'') of
      Continue st1 \<Rightarrow>
        (case bfs_step GRAPH ''F'' st1 of
           Continue st2 \<Rightarrow>
             frontier st2 = [''D'', ''C'', ''E'', ''G''] \<and>
             Frontier (last (process_steps st2)) = [''D'', ''C'', ''D'', ''E'', ''G'']
         | _ \<Rightarrow> False)
    | _ \<Rightarrow> False) \<and>
   (case breadth_first_search GRAPH ''A'' ''F'' of
      Some (Inr (path, steps, lvl)) \<Rightarrow>
        map Frontier steps =
          [[''A''], [''B'', ''D''], [''D'', ''C'', ''D'', ''E'', ''G''],
           [''C'', ''E'', ''G'', ''C'', ''E'', ''G''], [''E'', ''G'', ''E'', ''G''],
           [''G'', ''G'', ''H''], [''H'', ''F'', ''H''], [''F'', ''F'']]
    | _ \<Rightarrow> False)"
  by code_simp

section \<open>The start node is the goal\<close>

lemma reconstruct_start: "reconstruct [s \<mapsto> None] (Some s) [] = Some [s]"
  by (simp add: reconstruct.simps)

lemma bfs_loop_start_goal:
  "bfs_loop g s (init_state s) =
     Inr ((init_state s)\<lparr>frontier := [], current_node := Some s, expansion_order := 1\<rparr>)"
  by (subst bfs_loop.simps) (simp add: bfs_step_def init_state_def)

lemma dfs_loop_start_goal:
  "dfs_loop g s (init_state s) =
     Inr ((init_state s)\<lparr>frontier := [], current_node := Some s, expansion_order := 1\<rparr>)"
  by (subst dfs_loop.simps) (simp add: dfs_step_def init_state_def)

text \<open>
  C8. With \<open>start = goal = s\<close> both searches stop at the first dequeue or pop: no
  successor of \<open>s\<close> is discovered (the trace holds the initial record only, and the
  level map holds \<open>s\<close> only), the path is \<open>[s]\<close> and the level of \<open>s\<close>
  is 0. This holds for every graph and every node.
\<close>

theorem start_is_goal:
  "breadth_first_search g s s =
     Some (Inr ([s],
       [\<lparr>Step = 0, Expansion = Start, Level = 0, Frontier = [s], Visited = {s}\<rparr>],
       [s \<mapsto> 0])) \<and>
   depth_first_search g s s =
     Some (Inr ([s],
       [\<lparr>Step = 0, Expansion = Start, Level = 0, Frontier = [s], Visited = {s}\<rparr>],
       [s \<mapsto> 0]))"
proof -
  have "finish s (Inr ((init_state s)\<lparr>frontier := [], current_node := Some s,
      expansion_order := 1\<rparr>)) =
    Some (Inr ([s],
       [\<lparr>Step = 0, Expansion = Start, Level = 0, Frontier = [s], Visited = {s}\<rparr>],
       [s \<mapsto> 0]))"
    by (simp add: finish_def init_state_def reconstruct_start)
  then show ?thesis
    by (simp only: breadth_first_search_def depth_first_search_def bfs_loop_start_goal
        dfs_loop_start_goal)
qed

end
